theory Spec2Isabelle
  imports Main "HOL-Library.Char_ord" "HOL-Library.List_Lexorder"
begin

unbundle bit_operations_syntax

section \<open>Python values and built-ins used by netfuncs.py\<close>

text \<open>
  Python integers are unbounded, so they are \<open>int\<close>; \<open>|\<close>, \<open>&\<close>, \<open><<\<close> and \<open>>>\<close> are
  \<open>OR\<close>, \<open>AND\<close>, \<open>push_bit\<close> and \<open>drop_bit\<close> on \<open>int\<close> (two's complement with an
  infinite sign extension, as in Python). Strings are \<open>string\<close>; a character stands for
  the code point of the same number (0 to 255). Every exception the code can raise is a
  value of \<open>error\<close>, and a function that can raise returns \<open>error + 'a\<close>.
\<close>

datatype error = ValueError | TypeError | KeyError | IndexError | AttributeError | OSError

text \<open>
  The values that \<open>functools.reduce\<close> passes to the lambda of \<open>value_to_ipv4\<close> are
  integers (the list elements) and strings (the accumulated text).
\<close>

datatype pyval = PInt int | PStr string

definition is_digit :: "char \<Rightarrow> bool" where
  "is_digit c \<longleftrightarrow> 48 \<le> (of_char c :: nat) \<and> (of_char c :: nat) \<le> 57"

definition digit_val :: "char \<Rightarrow> int" where
  "digit_val c = int (of_char c) - 48"

definition digit_char :: "nat \<Rightarrow> char" where
  "digit_char n = char_of (48 + n)"

text \<open>
  The characters that \<open>int()\<close> strips from both ends of its argument: tab, line feed,
  vertical tab, form feed, carriage return, the separators 28 to 31, space, NEL (133) and
  the no-break space (160).
\<close>

definition is_space :: "char \<Rightarrow> bool" where
  "is_space c \<longleftrightarrow> (of_char c :: nat) \<in> {9, 10, 11, 12, 13, 28, 29, 30, 31, 32, 133, 160}"

definition strip :: "string \<Rightarrow> string" where
  "strip s = rev (dropWhile is_space (rev (dropWhile is_space s)))"

text \<open>
  The digits of a decimal literal after its first digit: digits, with single
  underscores allowed between two digits.
\<close>

fun digits_value :: "string \<Rightarrow> int \<Rightarrow> int option" where
  "digits_value [] acc = Some acc"
| "digits_value (c # cs) acc =
     (if is_digit c then digits_value cs (10 * acc + digit_val c)
      else if c = CHR ''_'' then
        (case cs of
           [] \<Rightarrow> None
         | d # ds \<Rightarrow> if is_digit d then digits_value ds (10 * acc + digit_val d) else None)
      else None)"

text \<open>
  CPython refuses to convert a decimal string of more than 4300 digits (the default of
  \<open>sys.int_max_str_digits\<close>).
\<close>

definition max_str_digits :: nat where
  "max_str_digits = 4300"

text \<open>
  \<open>int(s)\<close> for a string: surrounding whitespace is dropped, one sign is allowed, then a
  decimal literal must fill the rest; anything else raises ValueError.
\<close>

definition py_int :: "string \<Rightarrow> error + int" where
  "py_int s =
     (let t = strip s;
          neg = (case t of [] \<Rightarrow> False | c # _ \<Rightarrow> c = CHR ''-'');
          u = (case t of [] \<Rightarrow> [] | c # r \<Rightarrow> if c = CHR ''-'' \<or> c = CHR ''+'' then r else t)
      in case u of
           [] \<Rightarrow> Inl ValueError
         | c # cs \<Rightarrow>
             if \<not> is_digit c then Inl ValueError
             else if max_str_digits < length (filter is_digit u) then Inl ValueError
             else (case digits_value cs (digit_val c) of
                     None \<Rightarrow> Inl ValueError
                   | Some n \<Rightarrow> Inr (if neg then - n else n)))"

text \<open>\<open>str(n)\<close> for an integer: the decimal digits, no leading zero, a minus sign if negative.\<close>

fun str_nat :: "nat \<Rightarrow> string" where
  "str_nat n = (if n < 10 then [digit_char n] else str_nat (n div 10) @ [digit_char (n mod 10)])"

declare str_nat.simps [simp del]

definition str_int :: "int \<Rightarrow> string" where
  "str_int i = (if i < 0 then CHR ''-'' # str_nat (nat (- i)) else str_nat (nat i))"

fun py_str :: "pyval \<Rightarrow> string" where
  "py_str (PInt i) = str_int i"
| "py_str (PStr s) = s"

text \<open>\<open>a << b\<close>: a negative shift count raises ValueError.\<close>

definition py_lshift :: "int \<Rightarrow> int \<Rightarrow> error + int" where
  "py_lshift a b = (if b < 0 then Inl ValueError else Inr (push_bit (nat b) a))"

text \<open>\<open>s.split(sep)\<close> with a one-character separator: never empty, one more part than separators.\<close>

fun split_on :: "char \<Rightarrow> string \<Rightarrow> string list" where
  "split_on sep [] = [[]]"
| "split_on sep (c # cs) =
     (if c = sep then [] # split_on sep cs
      else (case split_on sep cs of [] \<Rightarrow> [[c]] | p # ps \<Rightarrow> (c # p) # ps))"

text \<open>\<open>xs[-1]\<close>: the last element, IndexError on an empty list.\<close>

definition py_last :: "'a list \<Rightarrow> error + 'a" where
  "py_last xs = (if xs = [] then Inl IndexError else Inr (last xs))"

text \<open>\<open>functools.reduce(f, xs)\<close> without an initial value: TypeError on an empty list.\<close>

fun reduce :: "('a \<Rightarrow> 'a \<Rightarrow> 'a) \<Rightarrow> 'a list \<Rightarrow> error + 'a" where
  "reduce f [] = Inl TypeError"
| "reduce f (x # xs) = Inr (foldl f x xs)"

section \<open>The address functions\<close>

text \<open>
  \<open>ipv4_to_value\<close>: the loop over the parts of the split, with \<open>result\<close> and \<open>num\<close>
  as loop state. \<open>int(part)\<close> is evaluated before the shift.
\<close>

fun ipv4_loop :: "string list \<Rightarrow> int \<Rightarrow> int \<Rightarrow> error + int" where
  "ipv4_loop [] result num = Inr result"
| "ipv4_loop (part # sections) result num =
     (case py_int part of
        Inl e \<Rightarrow> Inl e
      | Inr p \<Rightarrow>
          (case py_lshift p num of
             Inl e \<Rightarrow> Inl e
           | Inr shifted \<Rightarrow> ipv4_loop sections (shifted OR result) (num - 8)))"

definition ipv4_to_value :: "string \<Rightarrow> error + int" where
  "ipv4_to_value ipv4_addr = ipv4_loop (split_on CHR ''.'' ipv4_addr) 0 24"

text \<open>
  \<open>value_to_ipv4\<close>: \<open>range(0, 32, 8)\<close> is 0, 8, 16, 24; each octet is inserted at the front
  of \<open>res\<close>; the lambda joins with a dot, applying \<open>str\<close> to both sides.
\<close>

definition join_dot :: "pyval \<Rightarrow> pyval \<Rightarrow> pyval" where
  "join_dot a b = PStr (py_str a @ ''.'' @ py_str b)"

definition value_to_ipv4 :: "int \<Rightarrow> error + pyval" where
  "value_to_ipv4 addr =
     (let and_me = 255;
          res = foldl (\<lambda>res i. (drop_bit i addr AND and_me) # res) [] [0, 8, 16, 24]
      in reduce join_dot (map PInt res))"

definition set_bit_py :: "int \<Rightarrow> int \<Rightarrow> error + int" where
  "set_bit_py num digit =
     (case py_lshift 1 digit of Inl e \<Rightarrow> Inl e | Inr b \<Rightarrow> Inr (num OR b))"

function set_bits :: "int \<Rightarrow> int \<Rightarrow> int \<Rightarrow> error + int" where
  "set_bits num begin end =
     (if begin < end then
        (case set_bit_py num begin of
           Inl e \<Rightarrow> Inl e
         | Inr num' \<Rightarrow> set_bits num' (begin + 1) end)
      else Inr num)"
  by pat_completeness auto
termination
  by (relation "measure (\<lambda>(num, b, e). nat (e - b))") auto

declare set_bits.simps [simp del]

definition get_subnet_mask_value :: "string \<Rightarrow> error + int" where
  "get_subnet_mask_value slash =
     (case py_last (split_on CHR ''/'' slash) of
        Inl e \<Rightarrow> Inl e
      | Inr t \<Rightarrow>
          (case py_int t of
             Inl e \<Rightarrow> Inl e
           | Inr n \<Rightarrow> set_bits 0 (32 - n) 32))"

definition ips_same_subnet :: "string \<Rightarrow> string \<Rightarrow> string \<Rightarrow> error + bool" where
  "ips_same_subnet ip1 ip2 slash =
     (case get_subnet_mask_value slash of
        Inl e \<Rightarrow> Inl e
      | Inr mask' \<Rightarrow>
          (case ipv4_to_value ip1 of
             Inl e \<Rightarrow> Inl e
           | Inr ip1_value \<Rightarrow>
               (case ipv4_to_value ip2 of
                  Inl e \<Rightarrow> Inl e
                | Inr ip2_value \<Rightarrow> Inr (ip1_value AND mask' = ip2_value AND mask'))))"

definition get_network :: "int \<Rightarrow> int \<Rightarrow> int" where
  "get_network ip_value netmask = ip_value AND netmask"

section \<open>The router table\<close>

text \<open>
  A router is a dictionary loaded from JSON. Only its \<open>"netmask"\<close> entry is read; the
  other entries are opaque. A value is a string or something else (a number, a list, an
  object), on which \<open>.split\<close> raises AttributeError. A dictionary is an association list
  in insertion order, which is the order \<open>.items()\<close> iterates in.
\<close>

datatype jval = JStr string | JOther

type_synonym router = "(string \<times> jval) list"

type_synonym router_table = "(string \<times> router) list"

text \<open>
  \<open>router["netmask"]\<close>, then the first thing \<open>ips_same_subnet\<close> does with it, which is
  \<open>slash.split("/")\<close> inside \<open>get_subnet_mask_value\<close>.
\<close>

definition router_netmask :: "router \<Rightarrow> error + string" where
  "router_netmask r =
     (case map_of r ''netmask'' of
        None \<Rightarrow> Inl KeyError
      | Some (JStr s) \<Rightarrow> Inr s
      | Some JOther \<Rightarrow> Inl AttributeError)"

fun find_router_for_ip :: "router_table \<Rightarrow> string \<Rightarrow> error + string option" where
  "find_router_for_ip [] ip = Inr None"
| "find_router_for_ip ((router_ip, router) # routers) ip =
     (case router_netmask router of
        Inl e \<Rightarrow> Inl e
      | Inr slash \<Rightarrow>
          (case ips_same_subnet ip router_ip slash of
             Inl e \<Rightarrow> Inl e
           | Inr same \<Rightarrow> if same then Inr (Some router_ip) else find_router_for_ip routers ip))"


section \<open>The driver\<close>

text \<open>Sequencing of calls that can raise: the first exception ends the computation.\<close>

definition and_then :: "error + 'a \<Rightarrow> ('a \<Rightarrow> error + 'b) \<Rightarrow> error + 'b" where
  "and_then m f = (case m of Inl e \<Rightarrow> Inl e | Inr x \<Rightarrow> f x)"

text \<open>
  Standard output is the text written so far. \<open>print(s)\<close> appends \<open>s\<close> and a line feed;
  with \<open>end=""\<close> it appends \<open>s\<close> alone. A function that prints takes the output so far
  and returns its result, or the exception that ended it, with the output at that point.
\<close>

definition py_print :: "string \<Rightarrow> string \<Rightarrow> string" where
  "py_print s out = out @ s @ [CHR 0x0A]"

text \<open>The format specification \<open>>15s\<close> on a string: spaces on the left up to 15 characters.\<close>

definition rjust :: "nat \<Rightarrow> string \<Rightarrow> string" where
  "rjust w s = replicate (w - length s) CHR '' '' @ s"

text \<open>
  \<open>repr\<close> of a string, which is how a list shows its elements: double quotes if the
  text has a single quote and no double quote, single quotes otherwise; the quote and the
  backslash are escaped, tab, line feed and carriage return have their letters, and the
  other characters that are not printable are written \<open>\xhh\<close>.
\<close>

definition hex_digit :: "nat \<Rightarrow> char" where
  "hex_digit n = (if n < 10 then char_of (48 + n) else char_of (87 + n))"

definition printable :: "char \<Rightarrow> bool" where
  "printable c \<longleftrightarrow>
     (32 \<le> (of_char c :: nat) \<and> (of_char c :: nat) < 127) \<or>
     (161 \<le> (of_char c :: nat) \<and> (of_char c :: nat) \<noteq> 173)"

definition repr_char :: "char \<Rightarrow> char \<Rightarrow> string" where
  "repr_char quote c =
     (if c = quote \<or> c = CHR 0x5C then [CHR 0x5C, c]
      else if c = CHR 0x09 then [CHR 0x5C, CHR ''t'']
      else if c = CHR 0x0A then [CHR 0x5C, CHR ''n'']
      else if c = CHR 0x0D then [CHR 0x5C, CHR ''r'']
      else if \<not> printable c then
        [CHR 0x5C, CHR ''x'', hex_digit (of_char c div 16), hex_digit (of_char c mod 16)]
      else [c])"

definition py_repr :: "string \<Rightarrow> string" where
  "py_repr s =
     (let quote = (if CHR 0x27 \<in> set s \<and> CHR 0x22 \<notin> set s then CHR 0x22 else CHR 0x27)
      in quote # concat (map (repr_char quote) s) @ [quote])"

fun join_comma :: "string list \<Rightarrow> string" where
  "join_comma [] = []"
| "join_comma [x] = x"
| "join_comma (x # y # ys) = x @ '', '' @ join_comma (y # ys)"

definition str_list :: "string list \<Rightarrow> string" where
  "str_list xs = ''['' @ join_comma (map py_repr xs) @ '']''"

text \<open>\<open>d[k]\<close> on a dictionary: KeyError when the key is absent.\<close>

definition py_getitem :: "('k \<times> 'v) list \<Rightarrow> 'k \<Rightarrow> error + 'v" where
  "py_getitem d k = (case map_of d k of None \<Rightarrow> Inl KeyError | Some v \<Rightarrow> Inr v)"

definition usage :: "string \<Rightarrow> string" where
  "usage err = py_print ''usage: netfuncs.py infile.json'' err"

text \<open>The body of the loop of \<open>print_routers\<close> up to the text of the line it prints.\<close>

definition router_line :: "router_table \<Rightarrow> string \<Rightarrow> error + string" where
  "router_line routers router_ip =
     and_then (py_getitem routers router_ip) (\<lambda>router.
     and_then (router_netmask router) (\<lambda>slash_mask.
     and_then (get_subnet_mask_value slash_mask) (\<lambda>netmask_value.
     and_then (value_to_ipv4 netmask_value) (\<lambda>netmask.
     and_then (ipv4_to_value router_ip) (\<lambda>router_ip_value.
     and_then (value_to_ipv4 (get_network router_ip_value netmask_value)) (\<lambda>network_ip.
       Inr ('' '' @ rjust 15 router_ip @ '': netmask '' @ py_str netmask @
            '': network '' @ py_str network_ip)))))))"

fun print_routers_loop :: "router_table \<Rightarrow> string list \<Rightarrow> string \<Rightarrow> (error + unit) \<times> string" where
  "print_routers_loop routers [] out = (Inr (), out)"
| "print_routers_loop routers (router_ip # routers_list) out =
     (case router_line routers router_ip of
        Inl e \<Rightarrow> (Inl e, out)
      | Inr line \<Rightarrow> print_routers_loop routers routers_list (py_print line out))"

definition print_routers :: "router_table \<Rightarrow> string \<Rightarrow> (error + unit) \<times> string" where
  "print_routers routers out =
     print_routers_loop routers (sort (map fst routers)) (py_print ''Routers:'' out)"

text \<open>
  An address pair is a JSON array, a list of strings; \<open>for src_ip, dest_ip in ...\<close>
  raises ValueError on a list that does not have two elements. The first part of the
  line is printed before \<open>ips_same_subnet\<close> is called.
\<close>

fun print_same_subnets_loop :: "string list list \<Rightarrow> string \<Rightarrow> (error + unit) \<times> string" where
  "print_same_subnets_loop [] out = (Inr (), out)"
| "print_same_subnets_loop (pair # pairs) out =
     (case pair of
        [src_ip, dest_ip] \<Rightarrow>
          (let out' = out @ '' '' @ rjust 15 src_ip @ '' '' @ rjust 15 dest_ip @ '': ''
           in case ips_same_subnet src_ip dest_ip ''/24'' of
                Inl e \<Rightarrow> (Inl e, out')
              | Inr same \<Rightarrow>
                  print_same_subnets_loop pairs
                    (py_print (if same then ''same subnet'' else ''different subnets'') out'))
      | _ \<Rightarrow> (Inl ValueError, out))"

definition print_same_subnets :: "string list list \<Rightarrow> string \<Rightarrow> (error + unit) \<times> string" where
  "print_same_subnets src_dest_pairs out =
     print_same_subnets_loop (sort src_dest_pairs) (py_print ''IP Pairs:'' out)"

text \<open>
  \<open>router_host_map\<close> is a dictionary whose keys are router addresses or \<open>None\<close>: an
  association list in insertion order. The first loop of \<open>print_ip_routers\<close> fills it.
\<close>

type_synonym host_map = "(string option \<times> string list) list"

fun host_map_append :: "host_map \<Rightarrow> string option \<Rightarrow> string \<Rightarrow> host_map" where
  "host_map_append [] router ip = [(router, [ip])]"
| "host_map_append ((k, ips) # m) router ip =
     (if k = router then (k, ips @ [ip]) # m else (k, ips) # host_map_append m router ip)"

fun fill_host_map :: "router_table \<Rightarrow> string list \<Rightarrow> host_map \<Rightarrow> error + host_map" where
  "fill_host_map routers [] router_host_map = Inr router_host_map"
| "fill_host_map routers (ip # all_ips) router_host_map =
     (case find_router_for_ip routers ip of
        Inl e \<Rightarrow> Inl e
      | Inr router \<Rightarrow> fill_host_map routers all_ips (host_map_append router_host_map router ip))"

text \<open>
  \<open>sorted\<close> on the keys: a list of at most one key needs no comparison; otherwise every
  key is compared with another one, and comparing \<open>None\<close> with a string raises
  TypeError.
\<close>

definition sorted_keys :: "string option list \<Rightarrow> error + string option list" where
  "sorted_keys ks =
     (if length ks \<le> 1 then Inr ks
      else if None \<in> set ks then Inl TypeError
      else Inr (map Some (sort (List.map_filter id ks))))"

text \<open>The format specification \<open>>15s\<close> on \<open>None\<close> raises TypeError.\<close>

definition format_key :: "string option \<Rightarrow> error + string" where
  "format_key router_ip =
     (case router_ip of None \<Rightarrow> Inl TypeError | Some s \<Rightarrow> Inr (rjust 15 s))"

fun print_buckets :: "host_map \<Rightarrow> string option list \<Rightarrow> string \<Rightarrow> (error + unit) \<times> string" where
  "print_buckets router_host_map [] out = (Inr (), out)"
| "print_buckets router_host_map (router_ip # keys) out =
     (case and_then (format_key router_ip) (\<lambda>key.
             and_then (py_getitem router_host_map router_ip) (\<lambda>ips.
               Inr ('' '' @ key @ '': '' @ str_list ips))) of
        Inl e \<Rightarrow> (Inl e, out)
      | Inr line \<Rightarrow> print_buckets router_host_map keys (py_print line out))"

definition print_ip_routers :: "router_table \<Rightarrow> string list list \<Rightarrow> string \<Rightarrow> (error + unit) \<times> string" where
  "print_ip_routers routers src_dest_pairs out =
     (let out1 = py_print ''Routers and corresponding IPs:'' out;
          all_ips = sort (remdups (concat src_dest_pairs))
      in case fill_host_map routers all_ips [] of
           Inl e \<Rightarrow> (Inl e, out1)
         | Inr router_host_map \<Rightarrow>
             (case sorted_keys (map fst router_host_map) of
                Inl e \<Rightarrow> (Inl e, out1)
              | Inr keys \<Rightarrow> print_buckets router_host_map keys out1))"

text \<open>
  What \<open>read_routers\<close> returns is the decoded JSON object; reading the file and
  decoding it are the Python library's, so \<open>main\<close> takes \<open>read_routers\<close> as a
  parameter. Its two entries may be absent, and then the subscript raises KeyError.
\<close>

record json_data =
  routers_entry :: "router_table option"
  src_dest_entry :: "string list list option"

record world =
  stdout :: string
  stderr :: string

definition entry :: "'a option \<Rightarrow> error + 'a" where
  "entry v = (case v of None \<Rightarrow> Inl KeyError | Some x \<Rightarrow> Inr x)"

text \<open>
  \<open>main\<close>: the module defines no \<open>my_tests\<close> (the text of that function is inside a
  string literal), so the first test is false. \<open>argv[1]\<close> raises IndexError when the
  list has fewer than two elements, and the bare \<open>except\<close> catches it. The result is
  the value \<open>main\<close> returns (\<open>None\<close> at the end of the body) or the exception that left it.
\<close>

definition report :: "json_data \<Rightarrow> string \<Rightarrow> (error + unit) \<times> string" where
  "report data out =
     (case entry (routers_entry data) of
        Inl e \<Rightarrow> (Inl e, out)
      | Inr routers \<Rightarrow>
          (case entry (src_dest_entry data) of
             Inl e \<Rightarrow> (Inl e, out)
           | Inr src_dest_pairs \<Rightarrow>
               (case print_routers routers out of
                  (Inl e, out1) \<Rightarrow> (Inl e, out1)
                | (Inr _, out1) \<Rightarrow>
                    (case print_same_subnets src_dest_pairs (py_print [] out1) of
                       (Inl e, out2) \<Rightarrow> (Inl e, out2)
                     | (Inr _, out2) \<Rightarrow>
                         print_ip_routers routers src_dest_pairs (py_print [] out2)))))"

definition main :: "(string \<Rightarrow> error + json_data) \<Rightarrow> string list \<Rightarrow> world \<Rightarrow> (error + int option) \<times> world" where
  "main read_routers argv w =
     (if length argv \<le> 1 then (Inr (Some 1), w\<lparr>stderr := usage (stderr w)\<rparr>)
      else
        (case read_routers (argv ! 1) of
           Inl e \<Rightarrow> (Inl e, w)
         | Inr data \<Rightarrow>
             (case report data (stdout w) of
                (Inl e, out) \<Rightarrow> (Inl e, w\<lparr>stdout := out\<rparr>)
              | (Inr _, out) \<Rightarrow> (Inr None, w\<lparr>stdout := out\<rparr>))))"

text \<open>
  \<open>sys.exit(main(sys.argv))\<close>: the exit status is the integer returned, 0 for \<open>None\<close>,
  and 1 when an exception leaves \<open>main\<close> (the traceback that the interpreter then writes
  to the error stream is not part of the model).
\<close>

definition exit_status :: "error + int option \<Rightarrow> int" where
  "exit_status r = (case r of Inl e \<Rightarrow> 1 | Inr None \<Rightarrow> 0 | Inr (Some n) \<Rightarrow> n)"

definition script :: "(string \<Rightarrow> error + json_data) \<Rightarrow> string list \<Rightarrow> int \<times> world" where
  "script read_routers argv =
     (case main read_routers argv \<lparr>stdout = [], stderr = []\<rparr> of (r, w) \<Rightarrow> (exit_status r, w))"


section \<open>Well-formed inputs\<close>

text \<open>
  The claims speak of well-formed addresses and prefix lengths. A decimal text is a
  non-empty string of digits (short enough for \<open>int()\<close> to accept); its value is
  \<open>dec_value\<close>. An octet text is a decimal text of value at most 255; it is canonical
  when it has no leading zero. \<open>dotted4 a b c d\<close> is the text \<open>a.b.c.d\<close>.
\<close>

definition dec_value :: "string \<Rightarrow> int" where
  "dec_value t = foldl (\<lambda>a c. 10 * a + digit_val c) 0 t"

definition decimal_text :: "string \<Rightarrow> bool" where
  "decimal_text t \<longleftrightarrow> t \<noteq> [] \<and> list_all is_digit t \<and> length t \<le> max_str_digits"

definition canonical_dec :: "string \<Rightarrow> bool" where
  "canonical_dec t \<longleftrightarrow> t \<noteq> [] \<and> list_all is_digit t \<and> (1 < length t \<longrightarrow> hd t \<noteq> CHR ''0'')"

definition octet_text :: "string \<Rightarrow> bool" where
  "octet_text t \<longleftrightarrow> decimal_text t \<and> dec_value t \<le> 255"

definition canonical_octet :: "string \<Rightarrow> bool" where
  "canonical_octet t \<longleftrightarrow> canonical_dec t \<and> dec_value t \<le> 255"

definition dotted4 :: "string \<Rightarrow> string \<Rightarrow> string \<Rightarrow> string \<Rightarrow> string" where
  "dotted4 a b c d = a @ ''.'' @ b @ ''.'' @ c @ ''.'' @ d"

text \<open>
  An address text is a string that splits at its dots into exactly four octet texts
  (\<open>ipv4_text\<close>), canonical ones for \<open>canonical_ipv4_text\<close>; \<open>ipv4_text_iff\<close> below
  shows that these are the strings \<open>dotted4 a b c d\<close>. \<open>join_sep\<close> puts the parts of a
  split together again.
\<close>

fun join_sep :: "char \<Rightarrow> string list \<Rightarrow> string" where
  "join_sep sep [] = []"
| "join_sep sep [x] = x"
| "join_sep sep (x # y # ys) = x @ sep # join_sep sep (y # ys)"

definition ipv4_text :: "string \<Rightarrow> bool" where
  "ipv4_text s \<longleftrightarrow>
     (case split_on CHR ''.'' s of
        [a, b, c, d] \<Rightarrow> octet_text a \<and> octet_text b \<and> octet_text c \<and> octet_text d
      | _ \<Rightarrow> False)"

definition canonical_ipv4_text :: "string \<Rightarrow> bool" where
  "canonical_ipv4_text s \<longleftrightarrow>
     (case split_on CHR ''.'' s of
        [a, b, c, d] \<Rightarrow> canonical_octet a \<and> canonical_octet b \<and> canonical_octet c \<and> canonical_octet d
      | _ \<Rightarrow> False)"

text \<open>
  A well-formed router table: every key is an address text and every router has a
  \<open>"netmask"\<close> entry that is a string \<open>/N\<close> with \<open>N\<close> from 0 to 32.
  \<open>router_matches ip (k, r)\<close> says that \<open>ips_same_subnet(ip, k, r["netmask"])\<close> returns
  true. \<open>find_router_sorted\<close> follows the words of the specification, which has the
  routers visited in the order of their sorted keys; it is here to be compared with
  \<open>find_router_for_ip\<close>.
\<close>

definition netmask_text :: "string \<Rightarrow> bool" where
  "netmask_text s \<longleftrightarrow>
     (case s of [] \<Rightarrow> False | c # t \<Rightarrow> c = CHR ''/'' \<and> decimal_text t \<and> dec_value t \<le> 32)"

definition router_ok :: "string \<times> router \<Rightarrow> bool" where
  "router_ok kr \<longleftrightarrow>
     ipv4_text (fst kr) \<and>
     (case map_of (snd kr) ''netmask'' of Some (JStr s) \<Rightarrow> netmask_text s | _ \<Rightarrow> False)"

definition table_ok :: "router_table \<Rightarrow> bool" where
  "table_ok routers \<longleftrightarrow> list_all router_ok routers"

definition router_matches :: "string \<Rightarrow> string \<times> router \<Rightarrow> bool" where
  "router_matches ip kr \<longleftrightarrow>
     and_then (router_netmask (snd kr)) (ips_same_subnet ip (fst kr)) = Inr True"

definition find_router_sorted :: "router_table \<Rightarrow> string \<Rightarrow> error + string option" where
  "find_router_sorted routers ip = find_router_for_ip (sort_key fst routers) ip"


section \<open>Lemmas\<close>

lemma digits_value_digits:
  "list_all is_digit cs \<Longrightarrow> digits_value cs acc = Some (foldl (\<lambda>a c. 10 * a + digit_val c) acc cs)"
  by (induction cs arbitrary: acc) auto

lemma digit_not_space: "is_digit c \<Longrightarrow> \<not> is_space c"
  by (auto simp: is_digit_def is_space_def)

lemma digit_not_sign: "is_digit c \<Longrightarrow> c \<noteq> CHR ''-'' \<and> c \<noteq> CHR ''+'' \<and> c \<noteq> CHR ''.'' \<and> c \<noteq> CHR ''/''"
  by (auto simp: is_digit_def)

lemma dropWhile_id: "xs = [] \<or> \<not> P (hd xs) \<Longrightarrow> dropWhile P xs = xs"
  by (cases xs) auto

lemma strip_digits: "list_all is_digit t \<Longrightarrow> strip t = t"
proof (cases "t = []")
  case True then show ?thesis by (simp add: strip_def)
next
  case False
  assume d: "list_all is_digit t"
  from False d have h: "\<not> is_space (hd t)" 
    by (cases t) (auto simp: digit_not_space)
  from False d have l: "\<not> is_space (hd (rev t))"
    by (simp add: hd_rev list_all_iff digit_not_space)
  show ?thesis using h l False by (simp add: strip_def dropWhile_id)
qed

lemma py_int_decimal: "decimal_text t \<Longrightarrow> py_int t = Inr (dec_value t)"
proof -
  assume a: "decimal_text t"
  then obtain c cs where t: "t = c # cs" by (cases t) (auto simp: decimal_text_def)
  from a t have dc: "is_digit c" and dcs: "list_all is_digit cs" by (auto simp: decimal_text_def)
  from a have len: "length (filter is_digit t) \<le> max_str_digits"
    by (metis decimal_text_def length_filter_le le_trans)
  have s: "strip t = t" using a by (simp add: strip_digits decimal_text_def)
  show ?thesis
    using dc dcs len digit_not_sign[OF dc] unfolding py_int_def s 
    by (simp add: t Let_def digits_value_digits dec_value_def)
qed

lemma split_on_nosep: "sep \<notin> set a \<Longrightarrow> split_on sep a = [a]"
  by (induction a) auto

lemma split_on_append: "sep \<notin> set a \<Longrightarrow> split_on sep (a @ sep # rest) = a # split_on sep rest"
  by (induction a) auto

lemma split_on_not_Nil: "split_on sep s \<noteq> []"
  by (induction s) (auto split: list.splits)

lemma split_on_sep_append:
  "split_on sep (xs @ sep # ys) = split_on sep xs @ split_on sep ys"
proof (induction xs)
  case Nil
  show ?case by simp
next
  case (Cons x xs)
  show ?case
  proof (cases "x = sep")
    case True
    with Cons show ?thesis by simp
  next
    case False
    obtain p ps where sp: "split_on sep xs = p # ps"
      using split_on_not_Nil [of sep xs] by (cases "split_on sep xs") auto
    with Cons False show ?thesis by simp
  qed
qed

lemma last_split_on: "sep \<notin> set t \<Longrightarrow> last (split_on sep (pre @ sep # t)) = t"
  by (simp add: split_on_sep_append split_on_nosep)

lemma dec_value_snoc: "dec_value (t @ [c]) = 10 * dec_value t + digit_val c"
  by (simp add: dec_value_def)

lemma dec_value_single: "dec_value [c] = digit_val c"
  by (simp add: dec_value_def)

lemma digit_char_is_digit: "n < 10 \<Longrightarrow> is_digit (digit_char n)"
  by (simp add: is_digit_def digit_char_def)

lemma digit_val_digit_char: "n < 10 \<Longrightarrow> digit_val (digit_char n) = int n"
  by (simp add: digit_val_def digit_char_def)

lemma digit_char_digit_val: "is_digit c \<Longrightarrow> digit_char (nat (digit_val c)) = c"
  by (simp add: is_digit_def digit_val_def digit_char_def nat_diff_distrib' le_imp_diff_is_add)

lemma digit_val_range: "is_digit c \<Longrightarrow> 0 \<le> digit_val c \<and> digit_val c < 10"
  by (auto simp: is_digit_def digit_val_def)

lemma of_char_48: "of_char c = (48::nat) \<Longrightarrow> c = CHR ''0''"
proof -
  assume "of_char c = (48::nat)"
  then have "(of_char c :: nat) = of_char CHR ''0''" by simp
  then show ?thesis by (simp only: of_char_eq_iff)
qed

lemma digit_val_zero: "is_digit c \<Longrightarrow> digit_val c = 0 \<longleftrightarrow> c = CHR ''0''"
  by (auto simp: is_digit_def digit_val_def dest: of_char_48)

lemma str_nat_digits: "list_all is_digit (str_nat n)"
  by (induction n rule: str_nat.induct) (subst str_nat.simps, simp add: digit_char_is_digit)

lemma str_nat_not_Nil: "str_nat n \<noteq> []"
  by (subst str_nat.simps) simp

lemma dec_value_str_nat: "dec_value (str_nat n) = int n"
proof (induction n rule: str_nat.induct)
  case (1 n)
  show ?case
  proof (cases "n < 10")
    case True
    then show ?thesis by (subst str_nat.simps) (simp add: dec_value_single digit_val_digit_char)
  next
    case False
    with 1 have "dec_value (str_nat (n div 10)) = int (n div 10)" by simp
    moreover have "10 * int (n div 10) + int (n mod 10) = int n" by presburger
    ultimately show ?thesis using False
      by (subst str_nat.simps) (simp add: dec_value_snoc digit_val_digit_char)
  qed
qed

lemma length_str_nat: "length (str_nat n) \<le> Suc n"
proof (induction n rule: str_nat.induct)
  case (1 n)
  show ?case
  proof (cases "n < 10")
    case True
    then show ?thesis by (subst str_nat.simps) simp
  next
    case False
    with 1 have "length (str_nat (n div 10)) \<le> Suc (n div 10)" by simp
    with False show ?thesis by (subst str_nat.simps) simp
  qed
qed

lemma dec_value_nonneg: "list_all is_digit t \<Longrightarrow> 0 \<le> dec_value t"
proof (induction t rule: rev_induct)
  case Nil show ?case by (simp add: dec_value_def)
next
  case (snoc c t)
  then show ?case using digit_val_range[of c] by (simp add: dec_value_snoc)
qed

lemma dec_value_pos: "t \<noteq> [] \<Longrightarrow> list_all is_digit t \<Longrightarrow> hd t \<noteq> CHR ''0'' \<Longrightarrow> 0 < dec_value t"
proof (induction t rule: rev_induct)
  case Nil then show ?case by simp
next
  case (snoc c t)
  show ?case
  proof (cases "t = []")
    case True
    with snoc.prems show ?thesis using digit_val_range[of c] digit_val_zero[of c]
      by (simp add: dec_value_single) 
  next
    case False
    with snoc have "0 < dec_value t" by simp
    with snoc.prems show ?thesis using digit_val_range[of c] by (simp add: dec_value_snoc)
  qed
qed

lemma str_nat_dec_value: "canonical_dec t \<Longrightarrow> str_nat (nat (dec_value t)) = t"
proof (induction t rule: rev_induct)
  case Nil then show ?case by (simp add: canonical_dec_def)
next
  case (snoc c t)
  from snoc.prems have dc: "is_digit c" and dt: "list_all is_digit t"
    by (auto simp: canonical_dec_def)
  show ?case
  proof (cases "t = []")
    case True
    have "nat (digit_val c) < 10" using digit_val_range[OF dc] by linarith
    with dc True show ?thesis
      by (subst str_nat.simps) (simp add: dec_value_single digit_char_digit_val)
  next
    case False
    with snoc.prems have h: "hd t \<noteq> CHR ''0''" by (cases t) (auto simp: canonical_dec_def)
    with False dt have ct: "canonical_dec t" by (simp add: canonical_dec_def)
    have pos: "0 < dec_value t" using False dt h by (rule dec_value_pos)
    have r: "0 \<le> digit_val c \<and> digit_val c < 10" using dc by (rule digit_val_range)
    let ?v = "nat (dec_value (t @ [c]))"
    have v: "?v = 10 * nat (dec_value t) + nat (digit_val c)"
      using pos r by (simp add: dec_value_snoc nat_add_distrib nat_mult_distrib)
    have ge: "\<not> ?v < 10" using pos v by linarith
    have rn: "nat (digit_val c) < 10" using r by linarith
    have d: "?v div 10 = nat (dec_value t)" using v rn by simp
    have m: "?v mod 10 = nat (digit_val c)" using v rn by simp
    show ?thesis
      using ge d m snoc.IH[OF ct] dc
      by (subst str_nat.simps) (simp add: digit_char_digit_val)
  qed
qed

lemma canonical_str_nat: "canonical_dec (str_nat n)"
proof (induction n rule: str_nat.induct)
  case (1 n)
  show ?case
  proof (cases "n < 10")
    case True
    then show ?thesis by (subst str_nat.simps) (simp add: canonical_dec_def digit_char_is_digit)
  next
    case False
    with 1 have ih: "canonical_dec (str_nat (n div 10))" by simp
    have pos: "0 < n div 10" using False by simp
    have "hd (str_nat (n div 10)) \<noteq> CHR ''0''"
    proof
      assume z: "hd (str_nat (n div 10)) = CHR ''0''"
      with ih have "str_nat (n div 10) = ''0''" 
        by (cases "str_nat (n div 10)") (auto simp: canonical_dec_def)
      then have "dec_value (str_nat (n div 10)) = 0" by (simp add: dec_value_def digit_val_def)
      with pos show False by (simp add: dec_value_str_nat)
    qed
    with False ih show ?thesis
      by (subst str_nat.simps) (auto simp: canonical_dec_def digit_char_is_digit str_nat_not_Nil)
  qed
qed

lemma and_255: "(x::int) AND 255 = take_bit 8 x"
  by (simp add: take_bit_eq_mask mask_eq_exp_minus_1)

lemma or_push_bit_add:
  "0 \<le> y \<Longrightarrow> y < 2 ^ n \<Longrightarrow> y OR push_bit n x = y + push_bit n (x::int)"
  using concat_bit_def [of n y x] concat_bit_eq [of n y x]
  by (simp add: take_bit_int_eq_self)

lemma take_bit_add_push_bit:
  "0 \<le> y \<Longrightarrow> y < 2 ^ n \<Longrightarrow> take_bit n (y + push_bit n (x::int)) = y"
  by (simp add: take_bit_int_def push_bit_eq_mult)

lemma drop_bit_add_push_bit:
  "0 \<le> y \<Longrightarrow> y < 2 ^ n \<Longrightarrow> drop_bit n (y + push_bit n (x::int)) = x"
  by (simp add: drop_bit_int_def push_bit_eq_mult)

lemma digits_no_sep: "list_all is_digit t \<Longrightarrow> CHR ''.'' \<notin> set t \<and> CHR ''/'' \<notin> set t"
  using digit_not_sign by (auto simp: list_all_iff)

lemma split_dotted4:
  assumes "list_all is_digit a" "list_all is_digit b" "list_all is_digit c" "list_all is_digit d"
  shows "split_on CHR ''.'' (dotted4 a b c d) = [a, b, c, d]"
  using assms digits_no_sep [of a] digits_no_sep [of b] digits_no_sep [of c] digits_no_sep [of d]
  by (simp add: dotted4_def split_on_append split_on_nosep)

lemma ipv4_to_value_dotted4:
  assumes "decimal_text a" "decimal_text b" "decimal_text c" "decimal_text d"
  shows "ipv4_to_value (dotted4 a b c d) =
           Inr (dec_value d OR (push_bit 8 (dec_value c) OR
                 (push_bit 16 (dec_value b) OR push_bit 24 (dec_value a))))"
proof -
  have "split_on CHR ''.'' (dotted4 a b c d) = [a, b, c, d]"
    using assms by (intro split_dotted4) (simp_all add: decimal_text_def)
  then show ?thesis
    using assms by (simp add: ipv4_to_value_def py_int_decimal py_lshift_def)
qed

lemma octets_or_eq_add:
  fixes A B C D :: int
  assumes "0 \<le> B" "B < 256" "0 \<le> C" "C < 256" "0 \<le> D" "D < 256"
  shows "D OR (push_bit 8 C OR (push_bit 16 B OR push_bit 24 A)) =
         D + push_bit 8 (C + push_bit 8 (B + push_bit 8 A))"
proof -
  have 1: "B OR push_bit 8 A = B + push_bit 8 A"
    using assms by (intro or_push_bit_add) simp_all
  have 2: "C OR push_bit 8 (B + push_bit 8 A) = C + push_bit 8 (B + push_bit 8 A)"
    using assms by (intro or_push_bit_add) simp_all
  have 3: "D OR push_bit 8 (C + push_bit 8 (B + push_bit 8 A)) = D + push_bit 8 (C + push_bit 8 (B + push_bit 8 A))"
    using assms by (intro or_push_bit_add) simp_all
  have "push_bit 8 C OR (push_bit 16 B OR push_bit 24 A) = push_bit 8 (C OR push_bit 8 (B OR push_bit 8 A))"
    by (simp add: push_bit_or push_bit_push_bit)
  then show ?thesis using 1 2 3 by simp
qed

lemma octets_nested_eq_sum:
  fixes A B C D :: int
  shows "D + push_bit 8 (C + push_bit 8 (B + push_bit 8 A)) =
         push_bit 24 A + push_bit 16 B + push_bit 8 C + D"
  by (simp add: push_bit_eq_mult algebra_simps)

lemma octets_range:
  fixes A B C D :: int
  assumes "0 \<le> A" "A < 256" "0 \<le> B" "B < 256" "0 \<le> C" "C < 256" "0 \<le> D" "D < 256"
  shows "0 \<le> push_bit 24 A + push_bit 16 B + push_bit 8 C + D \<and>
         push_bit 24 A + push_bit 16 B + push_bit 8 C + D < 2 ^ 32"
  using assms by (simp add: push_bit_eq_mult)

lemma value_to_ipv4_unfold:
  "value_to_ipv4 v =
     Inr (PStr (dotted4 (str_int (drop_bit 24 v AND 255)) (str_int (drop_bit 16 v AND 255))
                        (str_int (drop_bit 8 v AND 255)) (str_int (v AND 255))))"
  by (simp add: value_to_ipv4_def join_dot_def dotted4_def)

lemma octet_and_255: "0 \<le> (x::int) AND 255 \<and> x AND 255 < 256"
  using take_bit_int_less_exp [of 8 x] by (simp add: and_255)

lemma str_int_octet:
  assumes "0 \<le> x" "x < 256"
  shows "str_int x = str_nat (nat x)" "canonical_octet (str_int x)" "octet_text (str_int x)"
        "dec_value (str_int x) = x"
proof -
  show s: "str_int x = str_nat (nat x)" using assms by (simp add: str_int_def)
  show v: "dec_value (str_int x) = x" using assms by (simp add: s dec_value_str_nat)
  show "canonical_octet (str_int x)"
    using assms v by (simp add: canonical_octet_def s canonical_str_nat)
  have "length (str_nat (nat x)) \<le> Suc (nat x)" by (rule length_str_nat)
  then have "length (str_nat (nat x)) \<le> 4300" using assms by linarith
  then show "octet_text (str_int x)"
    using assms v
    by (simp add: octet_text_def decimal_text_def max_str_digits_def s str_nat_digits str_nat_not_Nil)
qed

lemma canonical_octet_text: "canonical_octet t \<Longrightarrow> octet_text t"
proof -
  assume c: "canonical_octet t"
  then have cd: "canonical_dec t" and le: "dec_value t \<le> 255" by (simp_all add: canonical_octet_def)
  have nn: "0 \<le> dec_value t" using cd by (simp add: dec_value_nonneg canonical_dec_def)
  have "t = str_nat (nat (dec_value t))" using cd by (simp add: str_nat_dec_value)
  then have "t = str_int (dec_value t)" using nn by (simp add: str_int_def)
  moreover have "octet_text (str_int (dec_value t))" using nn le by (intro str_int_octet) simp_all
  ultimately show ?thesis by simp
qed

lemma octet_text_range: "octet_text t \<Longrightarrow> 0 \<le> dec_value t \<and> dec_value t < 256"
  by (simp add: octet_text_def decimal_text_def dec_value_nonneg)

lemma octets_of_nested:
  fixes A B C D :: int
  assumes "0 \<le> A" "A < 256" "0 \<le> B" "B < 256" "0 \<le> C" "C < 256" "0 \<le> D" "D < 256"
  defines "v \<equiv> D + push_bit 8 (C + push_bit 8 (B + push_bit 8 A))"
  shows "v AND 255 = D" "drop_bit 8 v AND 255 = C" "drop_bit 16 v AND 255 = B"
        "drop_bit 24 v AND 255 = A"
proof -
  have d8: "drop_bit 8 v = C + push_bit 8 (B + push_bit 8 A)"
    unfolding v_def using assms by (intro drop_bit_add_push_bit) simp_all
  have "drop_bit 16 v = drop_bit 8 (drop_bit 8 v)" by (simp add: drop_bit_drop_bit)
  also have "\<dots> = B + push_bit 8 A"
    unfolding d8 using assms by (intro drop_bit_add_push_bit) simp_all
  finally have d16: "drop_bit 16 v = B + push_bit 8 A" .
  have "drop_bit 24 v = drop_bit 8 (drop_bit 16 v)" by (simp add: drop_bit_drop_bit)
  also have "\<dots> = A"
    unfolding d16 using assms by (intro drop_bit_add_push_bit) simp_all
  finally have d24: "drop_bit 24 v = A" .
  show "v AND 255 = D"
    unfolding and_255 v_def using assms by (intro take_bit_add_push_bit) simp_all
  show "drop_bit 8 v AND 255 = C"
    unfolding and_255 d8 using assms by (intro take_bit_add_push_bit) simp_all
  show "drop_bit 16 v AND 255 = B"
    unfolding and_255 d16 using assms by (intro take_bit_add_push_bit) simp_all
  show "drop_bit 24 v AND 255 = A"
    unfolding and_255 d24 using assms by (simp add: take_bit_int_eq_self)
qed

lemma nested_of_value:
  fixes v :: int
  assumes "0 \<le> v" "v < 2 ^ 32"
  shows "(v AND 255) + push_bit 8 ((drop_bit 8 v AND 255) +
           push_bit 8 ((drop_bit 16 v AND 255) + push_bit 8 (drop_bit 24 v AND 255))) = v"
proof -
  have i: "\<And>x::int. take_bit 8 x + push_bit 8 (drop_bit 8 x) = x"
    using bits_ident [of 8] by (simp add: add.commute)
  have "drop_bit 24 v < 2 ^ 8" using assms by (simp add: drop_bit_int_def)
  moreover have "0 \<le> drop_bit 24 v" using assms by simp
  ultimately have t: "take_bit 8 (drop_bit 24 v) = drop_bit 24 v" by (simp add: take_bit_int_eq_self)
  have "take_bit 8 (drop_bit 16 v) + push_bit 8 (drop_bit 24 v) = drop_bit 16 v"
    using i [of "drop_bit 16 v"] by (simp add: drop_bit_drop_bit)
  moreover have "take_bit 8 (drop_bit 8 v) + push_bit 8 (drop_bit 16 v) = drop_bit 8 v"
    using i [of "drop_bit 8 v"] by (simp add: drop_bit_drop_bit)
  ultimately show ?thesis unfolding and_255 t using i [of v] by simp
qed

lemma set_bit_py_nonneg: "0 \<le> b \<Longrightarrow> set_bit_py num b = Inr (num OR push_bit (nat b) 1)"
  by (simp add: set_bit_py_def py_lshift_def)

lemma set_bits_bits:
  "0 \<le> b \<Longrightarrow> \<exists>m. set_bits num b e = Inr m \<and> (\<forall>i. bit m i \<longleftrightarrow> bit num i \<or> (nat b \<le> i \<and> i < nat e))"
proof (induction num b e rule: set_bits.induct)
  case (1 num b e)
  show ?case
  proof (cases "b < e")
    case False
    then have "set_bits num b e = Inr num" by (subst set_bits.simps) simp
    moreover have "\<not> (nat b \<le> i \<and> i < nat e)" for i using False by linarith
    ultimately show ?thesis by blast
  next
    case True
    let ?n = "num OR push_bit (nat b) 1"
    have sb: "set_bit_py num b = Inr ?n" using "1.prems" by (rule set_bit_py_nonneg)
    have nb: "0 \<le> b + 1" using "1.prems" by simp
    from "1.IH" [OF True sb nb]
    obtain m where m: "set_bits ?n (b + 1) e = Inr m"
      and bits: "\<forall>i. bit m i \<longleftrightarrow> bit ?n i \<or> (nat (b + 1) \<le> i \<and> i < nat e)" by blast
    have r: "set_bits num b e = Inr m"
      using True sb m by (subst set_bits.simps) simp
    have "bit m i \<longleftrightarrow> bit num i \<or> (nat b \<le> i \<and> i < nat e)" for i
    proof -
      have 1: "bit m i \<longleftrightarrow> bit ?n i \<or> (nat (b + 1) \<le> i \<and> i < nat e)"
        using bits by blast
      have 2: "bit ?n i \<longleftrightarrow> bit num i \<or> i = nat b"
        by (auto simp: bit_or_iff bit_push_bit_iff bit_1_iff bit_exp_iff)
      have 3: "(i = nat b \<or> (nat (b + 1) \<le> i \<and> i < nat e)) \<longleftrightarrow> (nat b \<le> i \<and> i < nat e)"
        using True "1.prems" by linarith
      show ?thesis unfolding 1 2 using 3 by blast
    qed
    with r show ?thesis by simp
  qed
qed

lemma high_bits_shape:
  assumes "k \<le> 32"
  shows "bit (push_bit k (mask (32 - k)) :: int) i \<longleftrightarrow> k \<le> i \<and> i < 32"
  using assms by (auto simp: bit_push_bit_iff bit_mask_iff)

lemma high_bits_value:
  fixes m :: int
  assumes "k \<le> 32" "\<forall>i. bit m i \<longleftrightarrow> k \<le> i \<and> i < 32"
  shows "m = 2 ^ 32 - 2 ^ k"
proof -
  have "m = push_bit k (mask (32 - k))"
  proof (rule bit_eqI)
    fix i
    show "bit m i \<longleftrightarrow> bit (push_bit k (mask (32 - k)) :: int) i"
      using assms(2) high_bits_shape [OF assms(1), of i] by simp
  qed
  also have "\<dots> = 2 ^ k * 2 ^ (32 - k) - 2 ^ k"
    by (simp add: push_bit_eq_mult mask_eq_exp_minus_1 algebra_simps)
  also have "(2::int) ^ k * 2 ^ (32 - k) = 2 ^ 32"
    using assms(1) by (simp flip: power_add)
  finally show ?thesis .
qed

lemma mask_of_prefix:
  assumes "decimal_text t" "dec_value t \<le> 32"
  shows "\<exists>m. get_subnet_mask_value (pre @ ''/'' @ t) = Inr m \<and>
             (\<forall>i. bit m i \<longleftrightarrow> 32 - nat (dec_value t) \<le> i \<and> i < 32) \<and>
             m = 2 ^ 32 - 2 ^ (32 - nat (dec_value t))"
proof -
  let ?n = "dec_value t"
  have nn: "0 \<le> ?n" using assms by (simp add: decimal_text_def dec_value_nonneg)
  have "CHR ''/'' \<notin> set t" using assms digits_no_sep [of t] by (simp add: decimal_text_def)
  then have l: "py_last (split_on CHR ''/'' (pre @ ''/'' @ t)) = Inr t"
    by (simp add: py_last_def split_on_not_Nil last_split_on)
  have g: "get_subnet_mask_value (pre @ ''/'' @ t) = set_bits 0 (32 - ?n) 32"
    unfolding get_subnet_mask_value_def l using assms by (simp add: py_int_decimal)
  have "0 \<le> 32 - ?n" using assms by simp
  from set_bits_bits [OF this, of 0 32]
  obtain m where m: "set_bits 0 (32 - ?n) 32 = Inr m"
    and bits: "\<forall>i. bit m i \<longleftrightarrow> nat (32 - ?n) \<le> i \<and> i < 32" by auto
  have e: "nat (32 - ?n) = 32 - nat ?n" using nn by simp
  have "m = 2 ^ 32 - 2 ^ (32 - nat ?n)"
    using bits unfolding e by (intro high_bits_value) simp_all
  with g m bits e show ?thesis by simp
qed

lemma ipv4_to_value_nested:
  assumes "octet_text a" "octet_text b" "octet_text c" "octet_text d"
  shows "ipv4_to_value (dotted4 a b c d) =
           Inr (dec_value d + push_bit 8 (dec_value c + push_bit 8 (dec_value b + push_bit 8 (dec_value a))))"
proof -
  have "ipv4_to_value (dotted4 a b c d) =
           Inr (dec_value d OR (push_bit 8 (dec_value c) OR
                 (push_bit 16 (dec_value b) OR push_bit 24 (dec_value a))))"
    using assms by (intro ipv4_to_value_dotted4) (simp_all add: octet_text_def)
  moreover have "dec_value d OR (push_bit 8 (dec_value c) OR
                 (push_bit 16 (dec_value b) OR push_bit 24 (dec_value a))) =
          dec_value d + push_bit 8 (dec_value c + push_bit 8 (dec_value b + push_bit 8 (dec_value a)))"
    using octet_text_range [OF assms(2)] octet_text_range [OF assms(3)] octet_text_range [OF assms(4)]
    by (intro octets_or_eq_add) simp_all
  ultimately show ?thesis by simp
qed

lemma ipv4_to_value_canonical_back:
  assumes "canonical_octet a" "canonical_octet b" "canonical_octet c" "canonical_octet d"
  shows "\<exists>v. ipv4_to_value (dotted4 a b c d) = Inr v \<and> 0 \<le> v \<and> v < 2 ^ 32 \<and>
             value_to_ipv4 v = Inr (PStr (dotted4 a b c d))"
proof -
  let ?A = "dec_value a" and ?B = "dec_value b" and ?C = "dec_value c" and ?D = "dec_value d"
  let ?v = "?D + push_bit 8 (?C + push_bit 8 (?B + push_bit 8 ?A))"
  note o = assms [THEN canonical_octet_text]
  note r = o [THEN octet_text_range]
  have v: "ipv4_to_value (dotted4 a b c d) = Inr ?v" using o by (rule ipv4_to_value_nested)
  have sb: "str_int (dec_value t) = t" if "canonical_octet t" for t
  proof -
    have "0 \<le> dec_value t" using that canonical_octet_text octet_text_range by blast
    then show ?thesis using that by (simp add: str_int_def str_nat_dec_value canonical_octet_def)
  qed
  have e: "?v AND 255 = ?D" "drop_bit 8 ?v AND 255 = ?C" "drop_bit 16 ?v AND 255 = ?B"
          "drop_bit 24 ?v AND 255 = ?A"
    using r by (simp_all add: octets_of_nested)
  have s: "value_to_ipv4 ?v = Inr (PStr (dotted4 a b c d))"
    unfolding value_to_ipv4_unfold e using assms by (simp add: sb)
  have rng: "0 \<le> ?v \<and> ?v < 2 ^ 32"
    using r octets_range [of ?A ?B ?C ?D] by (simp add: octets_nested_eq_sum)
  show ?thesis using v s rng by blast
qed

lemma value_to_ipv4_back:
  assumes "0 \<le> v" "v < 2 ^ 32"
  shows "\<exists>s. value_to_ipv4 v = Inr (PStr s) \<and> ipv4_to_value s = Inr v"
proof -
  let ?A = "drop_bit 24 v AND 255" and ?B = "drop_bit 16 v AND 255"
  let ?C = "drop_bit 8 v AND 255" and ?D = "v AND 255"
  let ?s = "dotted4 (str_int ?A) (str_int ?B) (str_int ?C) (str_int ?D)"
  have o: "octet_text (str_int (x AND 255))" for x :: int
    using octet_and_255 [of x] by (intro str_int_octet) simp_all
  have d: "dec_value (str_int (x AND 255)) = x AND 255" for x :: int
    using octet_and_255 [of x] by (intro str_int_octet) simp_all
  have "ipv4_to_value ?s = Inr (?D + push_bit 8 (?C + push_bit 8 (?B + push_bit 8 ?A)))"
    using ipv4_to_value_nested [OF o o o o, of "drop_bit 24 v" "drop_bit 16 v" "drop_bit 8 v" v]
    by (simp only: d)
  then have "ipv4_to_value ?s = Inr v" using nested_of_value [OF assms] by simp
  then show ?thesis using value_to_ipv4_unfold [of v] by blast
qed

lemma value_to_ipv4_canonical:
  "\<exists>a b c d. value_to_ipv4 v = Inr (PStr (dotted4 a b c d)) \<and>
     canonical_octet a \<and> canonical_octet b \<and> canonical_octet c \<and> canonical_octet d"
proof -
  have "canonical_octet (str_int (x AND 255))" for x :: int
    using octet_and_255 [of x] by (intro str_int_octet) simp_all
  then show ?thesis using value_to_ipv4_unfold [of v] by blast
qed

lemma join_split_on: "join_sep sep (split_on sep s) = s"
proof (induction s)
  case Nil
  show ?case by simp
next
  case (Cons c cs)
  obtain p ps where sp: "split_on sep cs = p # ps"
    using split_on_not_Nil [of sep cs] by (cases "split_on sep cs") auto
  show ?case
  proof (cases "c = sep")
    case True
    with Cons sp show ?thesis by simp
  next
    case False
    have "join_sep sep ((c # p) # ps) = c # join_sep sep (p # ps)"
      by (cases ps) simp_all
    with Cons sp False show ?thesis by simp
  qed
qed

lemma split_four_dotted4:
  assumes "split_on CHR ''.'' s = [a, b, c, d]"
  shows "s = dotted4 a b c d"
proof -
  have "join_sep CHR ''.'' (split_on CHR ''.'' s) = s" by (rule join_split_on)
  then show ?thesis unfolding assms by (simp add: dotted4_def)
qed

lemma ipv4_text_iff:
  "ipv4_text s \<longleftrightarrow>
     (\<exists>a b c d. s = dotted4 a b c d \<and> octet_text a \<and> octet_text b \<and> octet_text c \<and> octet_text d)"
proof
  assume "ipv4_text s"
  then obtain a b c d where sp: "split_on CHR ''.'' s = [a, b, c, d]"
    and o: "octet_text a \<and> octet_text b \<and> octet_text c \<and> octet_text d"
    by (auto simp: ipv4_text_def split: list.splits)
  from sp have "s = dotted4 a b c d" by (rule split_four_dotted4)
  with o show "\<exists>a b c d. s = dotted4 a b c d \<and> octet_text a \<and> octet_text b \<and> octet_text c \<and> octet_text d"
    by blast
next
  assume "\<exists>a b c d. s = dotted4 a b c d \<and> octet_text a \<and> octet_text b \<and> octet_text c \<and> octet_text d"
  then obtain a b c d where s: "s = dotted4 a b c d"
    and o: "octet_text a" "octet_text b" "octet_text c" "octet_text d" by blast
  have "split_on CHR ''.'' s = [a, b, c, d]"
    unfolding s using o by (intro split_dotted4) (simp_all add: octet_text_def decimal_text_def)
  with o show "ipv4_text s" by (simp add: ipv4_text_def)
qed

lemma canonical_ipv4_text_iff:
  "canonical_ipv4_text s \<longleftrightarrow>
     (\<exists>a b c d. s = dotted4 a b c d \<and> canonical_octet a \<and> canonical_octet b \<and>
        canonical_octet c \<and> canonical_octet d)"
proof
  assume "canonical_ipv4_text s"
  then obtain a b c d where sp: "split_on CHR ''.'' s = [a, b, c, d]"
    and o: "canonical_octet a \<and> canonical_octet b \<and> canonical_octet c \<and> canonical_octet d"
    by (auto simp: canonical_ipv4_text_def split: list.splits)
  from sp have "s = dotted4 a b c d" by (rule split_four_dotted4)
  with o show "\<exists>a b c d. s = dotted4 a b c d \<and> canonical_octet a \<and> canonical_octet b \<and>
        canonical_octet c \<and> canonical_octet d"
    by blast
next
  assume "\<exists>a b c d. s = dotted4 a b c d \<and> canonical_octet a \<and> canonical_octet b \<and>
        canonical_octet c \<and> canonical_octet d"
  then obtain a b c d where s: "s = dotted4 a b c d"
    and o: "canonical_octet a" "canonical_octet b" "canonical_octet c" "canonical_octet d" by blast
  have "split_on CHR ''.'' s = [a, b, c, d]"
    unfolding s using o by (intro split_dotted4) (simp_all add: canonical_octet_def canonical_dec_def)
  with o show "canonical_ipv4_text s" by (simp add: canonical_ipv4_text_def)
qed

lemma ipv4_text_value:
  assumes "ipv4_text s"
  shows "\<exists>v. ipv4_to_value s = Inr v \<and> 0 \<le> v \<and> v < 2 ^ 32"
proof -
  from assms obtain a b c d where s: "s = dotted4 a b c d"
    and o: "octet_text a" "octet_text b" "octet_text c" "octet_text d"
    unfolding ipv4_text_iff by blast
  note r = o [THEN octet_text_range]
  have "ipv4_to_value s = Inr (push_bit 24 (dec_value a) + push_bit 16 (dec_value b) +
               push_bit 8 (dec_value c) + dec_value d)"
    unfolding s using ipv4_to_value_nested [OF o] by (simp add: octets_nested_eq_sum)
  moreover have "0 \<le> push_bit 24 (dec_value a) + push_bit 16 (dec_value b) +
               push_bit 8 (dec_value c) + dec_value d \<and>
         push_bit 24 (dec_value a) + push_bit 16 (dec_value b) +
               push_bit 8 (dec_value c) + dec_value d < 2 ^ 32"
    using r by (intro octets_range) simp_all
  ultimately show ?thesis by blast
qed

lemma canonical_ipv4_text_value:
  assumes "canonical_ipv4_text s"
  shows "\<exists>v. ipv4_to_value s = Inr v \<and> 0 \<le> v \<and> v < 2 ^ 32 \<and> value_to_ipv4 v = Inr (PStr s)"
proof -
  from assms obtain a b c d where s: "s = dotted4 a b c d"
    and o: "canonical_octet a" "canonical_octet b" "canonical_octet c" "canonical_octet d"
    unfolding canonical_ipv4_text_iff by blast
  show ?thesis unfolding s using o by (rule ipv4_to_value_canonical_back)
qed

lemma ips_same_subnet_values:
  assumes "get_subnet_mask_value slash = Inr m" "ipv4_to_value ip1 = Inr v1" "ipv4_to_value ip2 = Inr v2"
  shows "ips_same_subnet ip1 ip2 slash = Inr (v1 AND m = v2 AND m)"
  using assms by (simp add: ips_same_subnet_def)

lemma and_full_mask:
  fixes v :: int
  assumes "0 \<le> v" "v < 2 ^ 32"
  shows "v AND 4294967295 = v"
proof -
  have "v AND mask 32 = v" using assms by (simp flip: take_bit_eq_mask add: take_bit_int_eq_self)
  then show ?thesis by (simp add: mask_eq_exp_minus_1)
qed

lemma router_ok_same_subnet:
  assumes "router_ok (k, r)" "ipv4_text ip"
  shows "\<exists>s b. router_netmask r = Inr s \<and> ips_same_subnet ip k s = Inr b"
proof -
  from assms(1) obtain s where n: "map_of r ''netmask'' = Some (JStr s)" and nt: "netmask_text s"
    by (auto simp: router_ok_def split: option.splits jval.splits)
  from nt obtain t where s: "s = [] @ ''/'' @ t" and t: "decimal_text t" "dec_value t \<le> 32"
    by (cases s) (auto simp: netmask_text_def)
  from mask_of_prefix [OF t, of "[]"]
  obtain m where m: "get_subnet_mask_value s = Inr m" unfolding s by blast
  from assms(1) have "ipv4_text k" by (simp add: router_ok_def)
  from ipv4_text_value [OF this] obtain v2 where v2: "ipv4_to_value k = Inr v2" by blast
  from ipv4_text_value [OF assms(2)] obtain v1 where v1: "ipv4_to_value ip = Inr v1" by blast
  have "ips_same_subnet ip k s = Inr (v1 AND m = v2 AND m)"
    using m v1 v2 by (rule ips_same_subnet_values)
  moreover have "router_netmask r = Inr s" using n by (simp add: router_netmask_def)
  ultimately show ?thesis by blast
qed

lemma find_router_for_ip_find:
  assumes "table_ok routers" "ipv4_text ip"
  shows "find_router_for_ip routers ip = Inr (map_option fst (find (router_matches ip) routers))"
  using assms(1)
proof (induction routers)
  case Nil
  show ?case by simp
next
  case (Cons kr routers)
  obtain k r where kr: "kr = (k, r)" by (cases kr)
  from Cons.prems have ok: "router_ok (k, r)" and rest: "table_ok routers"
    by (simp_all add: table_ok_def kr)
  from router_ok_same_subnet [OF ok assms(2)]
  obtain s b where s: "router_netmask r = Inr s" and b: "ips_same_subnet ip k s = Inr b" by blast
  have m: "router_matches ip (k, r) \<longleftrightarrow> b"
    by (simp add: router_matches_def and_then_def s b)
  show ?case
    using Cons.IH [OF rest] by (simp add: kr s b m)
qed

text \<open>
  The section of \<open>print_ip_routers\<close> cannot be printed when some address has no
  router: the key \<open>None\<close> then is in \<open>router_host_map\<close>, and either sorting the keys or
  formatting that key raises.
\<close>

lemma keys_host_map_append:
  "set (map fst (host_map_append m router ip)) = insert router (set (map fst m))"
  by (induction m router ip rule: host_map_append.induct) auto

lemma keys_fill_host_map:
  "fill_host_map routers ips m0 = Inr m \<Longrightarrow> ip \<in> set ips \<Longrightarrow>
   find_router_for_ip routers ip = Inr r \<Longrightarrow> r \<in> set (map fst m)"
proof (induction ips arbitrary: m0)
  case Nil
  then show ?case by simp
next
  case (Cons x ips)
  from Cons.prems(1) obtain rx where rx: "find_router_for_ip routers x = Inr rx"
    and f: "fill_host_map routers ips (host_map_append m0 rx x) = Inr m"
    by (auto split: sum.splits)
  show ?case
  proof (cases "ip \<in> set ips")
    case True
    from Cons.IH [OF f True Cons.prems(3)] show ?thesis .
  next
    case False
    with Cons.prems(2) have "ip = x" by simp
    with rx Cons.prems(3) have "rx = r" by simp
    have keep: "set (map fst m1) \<subseteq> set (map fst m2)"
      if "fill_host_map routers js m1 = Inr m2" for js m1 m2
      using that
    proof (induction js arbitrary: m1)
      case Nil
      then show ?case by simp
    next
      case (Cons j js)
      from Cons.prems obtain rj where
        "fill_host_map routers js (host_map_append m1 rj j) = Inr m2"
        by (auto split: sum.splits)
      from Cons.IH [OF this]
      have "insert rj (set (map fst m1)) \<subseteq> set (map fst m2)"
        unfolding keys_host_map_append .
      then show ?case by blast
    qed
    have "r \<in> set (map fst (host_map_append m0 rx x))"
      unfolding keys_host_map_append using \<open>rx = r\<close> by simp
    with keep [OF f] show ?thesis by blast
  qed
qed

lemma sorted_keys_None:
  assumes "sorted_keys ks = Inr keys" "None \<in> set ks"
  shows "None \<in> set keys"
  using assms by (auto simp: sorted_keys_def split: if_splits)

lemma print_buckets_None:
  "None \<in> set keys \<Longrightarrow> \<exists>e. fst (print_buckets m keys out) = Inl e"
proof (induction keys arbitrary: out)
  case Nil
  then show ?case by simp
next
  case (Cons k keys)
  show ?case
  proof (cases k)
    case None
    then show ?thesis by (simp add: format_key_def and_then_def)
  next
    case (Some s)
    with Cons.prems have "None \<in> set keys" by simp
    from Cons.IH [OF this] show ?thesis
      by (cases "and_then (format_key k) (\<lambda>key.
             and_then (py_getitem m k) (\<lambda>ips. Inr ('' '' @ key @ '': '' @ str_list ips)))")
         simp_all
  qed
qed

lemma print_ip_routers_unmatched:
  assumes "ip \<in> set (concat src_dest_pairs)" "find_router_for_ip routers ip = Inr None"
  shows "\<exists>e. fst (print_ip_routers routers src_dest_pairs out) = Inl e"
proof -
  let ?ips = "sort (remdups (concat src_dest_pairs))"
  have ip: "ip \<in> set ?ips" using assms(1) by simp
  show ?thesis
  proof (cases "fill_host_map routers ?ips []")
    case (Inl e)
    then show ?thesis by (simp add: print_ip_routers_def Let_def)
  next
    case (Inr m)
    from keys_fill_host_map [OF Inr ip assms(2)] have n: "None \<in> set (map fst m)" .
    show ?thesis
    proof (cases "sorted_keys (map fst m)")
      case (Inl e)
      with Inr show ?thesis by (simp add: print_ip_routers_def Let_def)
    next
      case keys: (Inr keys)
      from sorted_keys_None [OF keys n] have "None \<in> set keys" .
      from print_buckets_None [OF this] Inr keys show ?thesis
        by (simp add: print_ip_routers_def Let_def)
    qed
  qed
qed


section \<open>The claims\<close>

text \<open>
  C1. Round trip. For a canonical dotted address (four decimal parts, each 0 to 255, no
  leading zero) \<open>ipv4_to_value\<close> returns a value and \<open>value_to_ipv4\<close> of it is the
  same text; for an integer \<open>v\<close> from 0 to \<open>2^32 - 1\<close>, \<open>value_to_ipv4\<close> returns a
  text and \<open>ipv4_to_value\<close> of it is \<open>v\<close>.
\<close>

theorem address_round_trip:
  "(canonical_octet a \<and> canonical_octet b \<and> canonical_octet c \<and> canonical_octet d \<longrightarrow>
      and_then (ipv4_to_value (dotted4 a b c d)) value_to_ipv4 = Inr (PStr (dotted4 a b c d))) \<and>
   (0 \<le> v \<and> v < 2 ^ 32 \<longrightarrow>
      (\<exists>s. value_to_ipv4 v = Inr (PStr s) \<and> ipv4_to_value s = Inr v))"
proof (intro conjI impI)
  assume "canonical_octet a \<and> canonical_octet b \<and> canonical_octet c \<and> canonical_octet d"
  then obtain w where "ipv4_to_value (dotted4 a b c d) = Inr w"
    and "value_to_ipv4 w = Inr (PStr (dotted4 a b c d))"
    using ipv4_to_value_canonical_back [of a b c d] by blast
  then show "and_then (ipv4_to_value (dotted4 a b c d)) value_to_ipv4 = Inr (PStr (dotted4 a b c d))"
    by (simp add: and_then_def)
next
  assume "0 \<le> v \<and> v < 2 ^ 32"
  then show "\<exists>s. value_to_ipv4 v = Inr (PStr s) \<and> ipv4_to_value s = Inr v"
    by (simp add: value_to_ipv4_back)
qed

text \<open>The round trip at \<open>192.168.0.17\<close> and at its value.\<close>

theorem address_round_trip_witness:
  "canonical_octet ''192'' \<and> canonical_octet ''168'' \<and> canonical_octet ''0'' \<and> canonical_octet ''17'' \<and>
   and_then (ipv4_to_value ''192.168.0.17'') value_to_ipv4 = Inr (PStr ''192.168.0.17'') \<and>
   (0::int) \<le> 3232235537 \<and> (3232235537::int) < 2 ^ 32 \<and>
   (\<exists>s. value_to_ipv4 3232235537 = Inr (PStr s) \<and> ipv4_to_value s = Inr 3232235537)"
proof -
  have h: "canonical_octet ''192'' \<and> canonical_octet ''168'' \<and> canonical_octet ''0'' \<and> canonical_octet ''17''"
    by code_simp
  have r: "(0::int) \<le> 3232235537 \<and> (3232235537::int) < 2 ^ 32" by simp
  have d: "dotted4 ''192'' ''168'' ''0'' ''17'' = ''192.168.0.17''" by (simp add: dotted4_def)
  show ?thesis
    using address_round_trip [of "''192''" "''168''" "''0''" "''17''" 3232235537] h r
    unfolding d by blast
qed

text \<open>
  C4. For a dotted text of exactly four parts, each a decimal integer from 0 to 255,
  \<open>ipv4_to_value\<close> returns the sum of the parts shifted left by 24, 16, 8 and 0, the
  first part most significant; \<open>255.255.0.0\<close> gives \<open>0xffff0000\<close> and \<open>1.2.3.4\<close>
  gives \<open>0x01020304\<close>.
\<close>

theorem ipv4_to_value_octets:
  assumes "octet_text a" "octet_text b" "octet_text c" "octet_text d"
  shows "ipv4_to_value (dotted4 a b c d) =
           Inr (push_bit 24 (dec_value a) + push_bit 16 (dec_value b) +
                push_bit 8 (dec_value c) + push_bit 0 (dec_value d)) \<and>
         ipv4_to_value ''255.255.0.0'' = Inr 0xffff0000 \<and>
         ipv4_to_value ''1.2.3.4'' = Inr 0x01020304"
proof -
  have "ipv4_to_value (dotted4 a b c d) =
          Inr (push_bit 24 (dec_value a) + push_bit 16 (dec_value b) +
               push_bit 8 (dec_value c) + push_bit 0 (dec_value d))"
    using ipv4_to_value_nested [OF assms] by (simp add: octets_nested_eq_sum)
  moreover have "ipv4_to_value ''255.255.0.0'' = Inr 0xffff0000" by code_simp
  moreover have "ipv4_to_value ''1.2.3.4'' = Inr 0x01020304" by code_simp
  ultimately show ?thesis by simp
qed

text \<open>The sum of shifted parts at \<open>10.023.121.17\<close> (a leading zero is accepted).\<close>

theorem ipv4_to_value_octets_witness:
  "octet_text ''10'' \<and> octet_text ''023'' \<and> octet_text ''121'' \<and> octet_text ''17'' \<and>
   ipv4_to_value ''10.023.121.17'' = Inr (push_bit 24 10 + push_bit 16 23 + push_bit 8 121 + push_bit 0 17)"
proof -
  have h: "octet_text ''10''" "octet_text ''023''" "octet_text ''121''" "octet_text ''17''"
    by code_simp+
  have v: "dec_value ''10'' = 10" "dec_value ''023'' = 23" "dec_value ''121'' = 121" "dec_value ''17'' = 17"
    by code_simp+
  have d: "dotted4 ''10'' ''023'' ''121'' ''17'' = ''10.023.121.17''" by (simp add: dotted4_def)
  show ?thesis
    using ipv4_to_value_octets [OF h] h unfolding v d by blast
qed

text \<open>
  C10. For an integer \<open>v\<close> from 0 to \<open>2^32 - 1\<close>, \<open>value_to_ipv4 v\<close> is a well-formed
  address text: four parts joined by dots, each a decimal integer from 0 to 255 without
  a leading zero.
\<close>

theorem value_to_ipv4_well_formed:
  assumes "0 \<le> v" "v < 2 ^ 32"
  shows "\<exists>a b c d. value_to_ipv4 v = Inr (PStr (dotted4 a b c d)) \<and>
           canonical_octet a \<and> canonical_octet b \<and> canonical_octet c \<and> canonical_octet d"
  by (rule value_to_ipv4_canonical)

text \<open>The shape of the result at \<open>0xffff0000\<close>.\<close>

theorem value_to_ipv4_well_formed_witness:
  "(0::int) \<le> 4294901760 \<and> (4294901760::int) < 2 ^ 32 \<and>
   (\<exists>a b c d. value_to_ipv4 4294901760 = Inr (PStr (dotted4 a b c d)) \<and>
      canonical_octet a \<and> canonical_octet b \<and> canonical_octet c \<and> canonical_octet d)"
proof -
  have r: "(0::int) \<le> 4294901760" "(4294901760::int) < 2 ^ 32" by simp_all
  show ?thesis using value_to_ipv4_well_formed [OF r] r by blast
qed

text \<open>
  C2. For well-formed addresses \<open>ip1\<close>, \<open>ip2\<close> and a prefix length from 1 to 31 in
  slash notation, \<open>ips_same_subnet\<close> returns whether the two values agree under the
  mask that \<open>get_subnet_mask_value\<close> gives for the slash text; the two examples of the
  docstring come out true and false.
\<close>

theorem ips_same_subnet_compares_masked:
  assumes "ipv4_text ip1" "ipv4_text ip2" "decimal_text t" "1 \<le> dec_value t" "dec_value t \<le> 31"
  shows "(\<exists>m v1 v2. get_subnet_mask_value (pre @ ''/'' @ t) = Inr m \<and>
            ipv4_to_value ip1 = Inr v1 \<and> ipv4_to_value ip2 = Inr v2 \<and>
            ips_same_subnet ip1 ip2 (pre @ ''/'' @ t) = Inr (v1 AND m = v2 AND m)) \<and>
         ips_same_subnet ''10.23.121.17'' ''10.23.121.225'' ''/23'' = Inr True \<and>
         ips_same_subnet ''10.23.230.22'' ''10.24.121.225'' ''/16'' = Inr False"
proof -
  have "dec_value t \<le> 32" using assms(5) by simp
  from mask_of_prefix [OF assms(3) this, of pre]
  obtain m where m: "get_subnet_mask_value (pre @ ''/'' @ t) = Inr m" by blast
  from ipv4_text_value [OF assms(1)] obtain v1 where v1: "ipv4_to_value ip1 = Inr v1" by blast
  from ipv4_text_value [OF assms(2)] obtain v2 where v2: "ipv4_to_value ip2 = Inr v2" by blast
  have "ips_same_subnet ip1 ip2 (pre @ ''/'' @ t) = Inr (v1 AND m = v2 AND m)"
    using m v1 v2 by (rule ips_same_subnet_values)
  with m v1 v2 have 1: "\<exists>m v1 v2. get_subnet_mask_value (pre @ ''/'' @ t) = Inr m \<and>
            ipv4_to_value ip1 = Inr v1 \<and> ipv4_to_value ip2 = Inr v2 \<and>
            ips_same_subnet ip1 ip2 (pre @ ''/'' @ t) = Inr (v1 AND m = v2 AND m)" by blast
  have 2: "ips_same_subnet ''10.23.121.17'' ''10.23.121.225'' ''/23'' = Inr True" by code_simp
  have 3: "ips_same_subnet ''10.23.230.22'' ''10.24.121.225'' ''/16'' = Inr False" by code_simp
  show ?thesis using 1 2 3 by blast
qed

text \<open>The comparison at \<open>192.168.1.77\<close>, \<open>192.168.2.3\<close> and \<open>192.168.0.0/22\<close>.\<close>

theorem ips_same_subnet_compares_masked_witness:
  "ipv4_text ''192.168.1.77'' \<and> ipv4_text ''192.168.2.3'' \<and> decimal_text ''22'' \<and>
   1 \<le> dec_value ''22'' \<and> dec_value ''22'' \<le> 31 \<and>
   (\<exists>m v1 v2. get_subnet_mask_value ''192.168.0.0/22'' = Inr m \<and>
      ipv4_to_value ''192.168.1.77'' = Inr v1 \<and> ipv4_to_value ''192.168.2.3'' = Inr v2 \<and>
      ips_same_subnet ''192.168.1.77'' ''192.168.2.3'' ''192.168.0.0/22'' = Inr (v1 AND m = v2 AND m))"
proof -
  have h: "ipv4_text ''192.168.1.77''" "ipv4_text ''192.168.2.3''" "decimal_text ''22''"
     "1 \<le> dec_value ''22''" "dec_value ''22'' \<le> 31"
    by code_simp+
  have e: "''192.168.0.0'' @ ''/'' @ ''22'' = ''192.168.0.0/22''" by simp
  show ?thesis
    using ips_same_subnet_compares_masked [OF h, of "''192.168.0.0''"] h unfolding e by blast
qed

text \<open>
  C3. For a prefix length \<open>N\<close> from 0 to 32, \<open>get_subnet_mask_value\<close> of a text ending
  in \<open>/N\<close> returns the value whose bits 32 - N to 31 are set and no other, that is
  \<open>2^32 - 2^(32 - N)\<close>; whatever precedes the last slash is ignored; \<open>/0\<close> gives 0,
  \<open>/32\<close> gives \<open>0xFFFFFFFF\<close>, \<open>/16\<close> gives \<open>0xffff0000\<close>, \<open>/23\<close> and
  \<open>10.20.30.40/23\<close> give \<open>0xfffffe00\<close>.
\<close>

theorem get_subnet_mask_value_high_bits:
  assumes "decimal_text t" "dec_value t \<le> 32"
  shows "(\<exists>m. get_subnet_mask_value (''/'' @ t) = Inr m \<and>
            (\<forall>i. bit m i \<longleftrightarrow> 32 - nat (dec_value t) \<le> i \<and> i < 32) \<and>
            m = 2 ^ 32 - 2 ^ (32 - nat (dec_value t)) \<and>
            get_subnet_mask_value (pre @ ''/'' @ t) = Inr m) \<and>
         get_subnet_mask_value ''/0'' = Inr 0 \<and>
         get_subnet_mask_value ''/32'' = Inr 0xFFFFFFFF \<and>
         get_subnet_mask_value ''/16'' = Inr 0xffff0000 \<and>
         get_subnet_mask_value ''/23'' = Inr 0xfffffe00 \<and>
         get_subnet_mask_value ''10.20.30.40/23'' = Inr 0xfffffe00"
proof -
  from mask_of_prefix [OF assms, of "[]"]
  obtain m where m: "get_subnet_mask_value (''/'' @ t) = Inr m"
    and b: "\<forall>i. bit m i \<longleftrightarrow> 32 - nat (dec_value t) \<le> i \<and> i < 32"
    and v: "m = 2 ^ 32 - 2 ^ (32 - nat (dec_value t))" by auto
  from mask_of_prefix [OF assms, of pre]
  have "get_subnet_mask_value (pre @ ''/'' @ t) = Inr (2 ^ 32 - 2 ^ (32 - nat (dec_value t)))"
    by blast
  with m b v have 1: "\<exists>m. get_subnet_mask_value (''/'' @ t) = Inr m \<and>
            (\<forall>i. bit m i \<longleftrightarrow> 32 - nat (dec_value t) \<le> i \<and> i < 32) \<and>
            m = 2 ^ 32 - 2 ^ (32 - nat (dec_value t)) \<and>
            get_subnet_mask_value (pre @ ''/'' @ t) = Inr m" by blast
  have 2: "get_subnet_mask_value ''/0'' = Inr 0" by code_simp
  have 3: "get_subnet_mask_value ''/32'' = Inr 0xFFFFFFFF" by code_simp
  have 4: "get_subnet_mask_value ''/16'' = Inr 0xffff0000" by code_simp
  have 5: "get_subnet_mask_value ''/23'' = Inr 0xfffffe00" by code_simp
  have 6: "get_subnet_mask_value ''10.20.30.40/23'' = Inr 0xfffffe00" by code_simp
  show ?thesis using 1 2 3 4 5 6 by blast
qed

text \<open>The mask at \<open>/9\<close> and at \<open>172.16.5.4/9\<close>.\<close>

theorem get_subnet_mask_value_high_bits_witness:
  "decimal_text ''9'' \<and> dec_value ''9'' \<le> 32 \<and>
   (\<exists>m. get_subnet_mask_value ''/9'' = Inr m \<and>
      (\<forall>i. bit m i \<longleftrightarrow> 32 - nat (dec_value ''9'') \<le> i \<and> i < 32) \<and>
      m = 2 ^ 32 - 2 ^ (32 - nat (dec_value ''9'')) \<and>
      get_subnet_mask_value ''172.16.5.4/9'' = Inr m)"
proof -
  have h: "decimal_text ''9''" "dec_value ''9'' \<le> 32" by code_simp+
  have "\<exists>m. get_subnet_mask_value (''/'' @ ''9'') = Inr m \<and>
      (\<forall>i. bit m i \<longleftrightarrow> 32 - nat (dec_value ''9'') \<le> i \<and> i < 32) \<and>
      m = 2 ^ 32 - 2 ^ (32 - nat (dec_value ''9'')) \<and>
      get_subnet_mask_value (''172.16.5.4'' @ ''/'' @ ''9'') = Inr m"
    using get_subnet_mask_value_high_bits [OF h, of "''172.16.5.4''"] by (rule conjunct1)
  then have "\<exists>m. get_subnet_mask_value ''/9'' = Inr m \<and>
      (\<forall>i. bit m i \<longleftrightarrow> 32 - nat (dec_value ''9'') \<le> i \<and> i < 32) \<and>
      m = 2 ^ 32 - 2 ^ (32 - nat (dec_value ''9'')) \<and>
      get_subnet_mask_value ''172.16.5.4/9'' = Inr m"
    by (simp only: append.simps)
  with h show ?thesis by (intro conjI)
qed

text \<open>
  C7. For canonical addresses \<open>ip1\<close> and \<open>ip2\<close>, \<open>ips_same_subnet\<close> with \<open>/0\<close> is
  true, and with \<open>/32\<close> it is true exactly when the two are the same address (the same
  text, which for canonical texts is the same value).
\<close>

theorem ips_same_subnet_boundaries:
  assumes "canonical_ipv4_text ip1" "canonical_ipv4_text ip2"
  shows "ips_same_subnet ip1 ip2 ''/0'' = Inr True \<and>
         ips_same_subnet ip1 ip2 ''/32'' = Inr (ip1 = ip2) \<and>
         (ip1 = ip2 \<longleftrightarrow> ipv4_to_value ip1 = ipv4_to_value ip2)"
proof -
  from canonical_ipv4_text_value [OF assms(1)]
  obtain v1 where v1: "ipv4_to_value ip1 = Inr v1" and r1: "0 \<le> v1" "v1 < 2 ^ 32"
    and s1: "value_to_ipv4 v1 = Inr (PStr ip1)" by blast
  from canonical_ipv4_text_value [OF assms(2)]
  obtain v2 where v2: "ipv4_to_value ip2 = Inr v2" and r2: "0 \<le> v2" "v2 < 2 ^ 32"
    and s2: "value_to_ipv4 v2 = Inr (PStr ip2)" by blast
  have m0: "get_subnet_mask_value ''/0'' = Inr 0" by code_simp
  have m32: "get_subnet_mask_value ''/32'' = Inr 4294967295" by code_simp
  have eq: "ip1 = ip2 \<longleftrightarrow> v1 = v2" using v1 v2 s1 s2 by auto
  have a: "ips_same_subnet ip1 ip2 ''/0'' = Inr True"
    using ips_same_subnet_values [OF m0 v1 v2] by simp
  have b: "ips_same_subnet ip1 ip2 ''/32'' = Inr (ip1 = ip2)"
    using ips_same_subnet_values [OF m32 v1 v2] r1 r2 eq by (simp add: and_full_mask)
  have c: "ip1 = ip2 \<longleftrightarrow> ipv4_to_value ip1 = ipv4_to_value ip2"
    using eq v1 v2 by simp
  show ?thesis using a b c by blast
qed

text \<open>The two boundary prefixes at \<open>10.0.0.1\<close> and \<open>172.31.255.254\<close>.\<close>

theorem ips_same_subnet_boundaries_witness:
  "canonical_ipv4_text ''10.0.0.1'' \<and> canonical_ipv4_text ''172.31.255.254'' \<and>
   ips_same_subnet ''10.0.0.1'' ''172.31.255.254'' ''/0'' = Inr True \<and>
   ips_same_subnet ''10.0.0.1'' ''172.31.255.254'' ''/32'' = Inr (''10.0.0.1'' = ''172.31.255.254'')"
proof -
  have h: "canonical_ipv4_text ''10.0.0.1''" "canonical_ipv4_text ''172.31.255.254''"
    by code_simp+
  show ?thesis using ips_same_subnet_boundaries [OF h] h by blast
qed

text \<open>
  C9. \<open>ips_same_subnet\<close> is symmetric in its two addresses: for well-formed addresses
  and a prefix length from 0 to 32 both orders return the same truth value.
\<close>

theorem ips_same_subnet_symmetric:
  assumes "ipv4_text ip1" "ipv4_text ip2" "decimal_text t" "dec_value t \<le> 32"
  shows "\<exists>r. ips_same_subnet ip1 ip2 (pre @ ''/'' @ t) = Inr r \<and>
             ips_same_subnet ip2 ip1 (pre @ ''/'' @ t) = Inr r"
proof -
  from mask_of_prefix [OF assms(3,4), of pre]
  obtain m where m: "get_subnet_mask_value (pre @ ''/'' @ t) = Inr m" by blast
  from ipv4_text_value [OF assms(1)] obtain v1 where v1: "ipv4_to_value ip1 = Inr v1" by blast
  from ipv4_text_value [OF assms(2)] obtain v2 where v2: "ipv4_to_value ip2 = Inr v2" by blast
  have "ips_same_subnet ip1 ip2 (pre @ ''/'' @ t) = Inr (v1 AND m = v2 AND m)"
    using m v1 v2 by (rule ips_same_subnet_values)
  moreover have "ips_same_subnet ip2 ip1 (pre @ ''/'' @ t) = Inr (v2 AND m = v1 AND m)"
    using m v2 v1 by (rule ips_same_subnet_values)
  moreover have "(v1 AND m = v2 AND m) = (v2 AND m = v1 AND m)" by (rule eq_commute)
  ultimately show ?thesis by simp
qed

text \<open>Symmetry at \<open>10.23.121.17\<close>, \<open>10.23.121.225\<close> and \<open>/32\<close>.\<close>

theorem ips_same_subnet_symmetric_witness:
  "ipv4_text ''10.23.121.17'' \<and> ipv4_text ''10.23.121.225'' \<and> decimal_text ''32'' \<and>
   dec_value ''32'' \<le> 32 \<and>
   (\<exists>r. ips_same_subnet ''10.23.121.17'' ''10.23.121.225'' ''/32'' = Inr r \<and>
        ips_same_subnet ''10.23.121.225'' ''10.23.121.17'' ''/32'' = Inr r)"
proof -
  have h: "ipv4_text ''10.23.121.17''" "ipv4_text ''10.23.121.225''" "decimal_text ''32''"
    "dec_value ''32'' \<le> 32" by code_simp+
  have e: "[] @ ''/'' @ ''32'' = ''/32''" by simp
  show ?thesis using ips_same_subnet_symmetric [OF h, of "[]"] h unfolding e by blast
qed

text \<open>
  C5, as amended. For a well-formed router table and a well-formed address,
  \<open>find_router_for_ip\<close> visits the routers in the order of the table (the insertion
  order of the dictionary), returns the key of the first router whose subnet contains
  the address, and returns \<open>None\<close>, raising nothing, when no router matches; on the table
  of the docstring it returns \<open>1.2.3.1\<close> for \<open>1.2.3.5\<close> and \<open>None\<close> for \<open>1.2.5.6\<close>.
\<close>

theorem find_router_for_ip_first_match:
  assumes "table_ok routers" "ipv4_text ip"
  shows "find_router_for_ip routers ip = Inr (map_option fst (find (router_matches ip) routers)) \<and>
         (find_router_for_ip routers ip = Inr None \<longleftrightarrow> (\<forall>kr \<in> set routers. \<not> router_matches ip kr)) \<and>
         find_router_for_ip [(''1.2.3.1'', [(''netmask'', JStr ''/24'')]),
                             (''1.2.4.1'', [(''netmask'', JStr ''/24'')])] ''1.2.3.5'' = Inr (Some ''1.2.3.1'') \<and>
         find_router_for_ip [(''1.2.3.1'', [(''netmask'', JStr ''/24'')]),
                             (''1.2.4.1'', [(''netmask'', JStr ''/24'')])] ''1.2.5.6'' = Inr None"
proof -
  have 1: "find_router_for_ip routers ip = Inr (map_option fst (find (router_matches ip) routers))"
    using assms by (rule find_router_for_ip_find)
  have 2: "find_router_for_ip routers ip = Inr None \<longleftrightarrow> (\<forall>kr \<in> set routers. \<not> router_matches ip kr)"
    unfolding 1 by (auto simp: find_None_iff)
  have 3: "find_router_for_ip [(''1.2.3.1'', [(''netmask'', JStr ''/24'')]),
                             (''1.2.4.1'', [(''netmask'', JStr ''/24'')])] ''1.2.3.5'' = Inr (Some ''1.2.3.1'')"
    by code_simp
  have 4: "find_router_for_ip [(''1.2.3.1'', [(''netmask'', JStr ''/24'')]),
                             (''1.2.4.1'', [(''netmask'', JStr ''/24'')])] ''1.2.5.6'' = Inr None"
    by code_simp
  show ?thesis using 1 2 3 4 by (intro conjI)
qed

text \<open>The first match in table order, on a table whose keys are not in sorted order.\<close>

theorem find_router_for_ip_first_match_witness:
  "table_ok [(''10.0.2.1'', [(''netmask'', JStr ''/16'')]), (''10.0.1.1'', [(''netmask'', JStr ''/16'')])] \<and>
   ipv4_text ''10.0.3.7'' \<and>
   find_router_for_ip [(''10.0.2.1'', [(''netmask'', JStr ''/16'')]), (''10.0.1.1'', [(''netmask'', JStr ''/16'')])]
     ''10.0.3.7'' =
   Inr (map_option fst (find (router_matches ''10.0.3.7'')
     [(''10.0.2.1'', [(''netmask'', JStr ''/16'')]), (''10.0.1.1'', [(''netmask'', JStr ''/16'')])]))"
proof -
  have h: "table_ok [(''10.0.2.1'', [(''netmask'', JStr ''/16'')]), (''10.0.1.1'', [(''netmask'', JStr ''/16'')])]"
    "ipv4_text ''10.0.3.7''" by code_simp+
  from find_router_for_ip_first_match [OF h] 
  have "find_router_for_ip [(''10.0.2.1'', [(''netmask'', JStr ''/16'')]), (''10.0.1.1'', [(''netmask'', JStr ''/16'')])]
     ''10.0.3.7'' =
   Inr (map_option fst (find (router_matches ''10.0.3.7'')
     [(''10.0.2.1'', [(''netmask'', JStr ''/16'')]), (''10.0.1.1'', [(''netmask'', JStr ''/16'')])]))"
    by (rule conjunct1)
  with h show ?thesis by (intro conjI)
qed

text \<open>
  C5, as stated, says that the routers are visited in the order of their sorted keys.
  On the table with \<open>10.0.2.1\<close> before \<open>10.0.1.1\<close>, both \<open>/16\<close>, the address
  \<open>10.0.3.7\<close> is given to \<open>10.0.2.1\<close>, the first in the table, and not to
  \<open>10.0.1.1\<close>, the first in sorted order.
\<close>

theorem find_router_for_ip_sorted_counterexample:
  "find_router_for_ip [(''10.0.2.1'', [(''netmask'', JStr ''/16'')]), (''10.0.1.1'', [(''netmask'', JStr ''/16'')])]
     ''10.0.3.7'' = Inr (Some ''10.0.2.1'') \<and>
   find_router_sorted [(''10.0.2.1'', [(''netmask'', JStr ''/16'')]), (''10.0.1.1'', [(''netmask'', JStr ''/16'')])]
     ''10.0.3.7'' = Inr (Some ''10.0.1.1'') \<and>
   find_router_for_ip [(''10.0.2.1'', [(''netmask'', JStr ''/16'')]), (''10.0.1.1'', [(''netmask'', JStr ''/16'')])]
     ''10.0.3.7'' \<noteq>
   find_router_sorted [(''10.0.2.1'', [(''netmask'', JStr ''/16'')]), (''10.0.1.1'', [(''netmask'', JStr ''/16'')])]
     ''10.0.3.7''"
proof -
  have a: "find_router_for_ip [(''10.0.2.1'', [(''netmask'', JStr ''/16'')]), (''10.0.1.1'', [(''netmask'', JStr ''/16'')])]
     ''10.0.3.7'' = Inr (Some ''10.0.2.1'')" by code_simp
  have b: "find_router_sorted [(''10.0.2.1'', [(''netmask'', JStr ''/16'')]), (''10.0.1.1'', [(''netmask'', JStr ''/16'')])]
     ''10.0.3.7'' = Inr (Some ''10.0.1.1'')" by code_simp
  have c: "''10.0.2.1'' \<noteq> ''10.0.1.1''" by simp
  show ?thesis unfolding a b using c by simp
qed

text \<open>
  C8. Called with no input-file argument, \<open>main\<close> writes the usage line to the error
  stream, writes nothing to standard output and returns 1, which is the exit status.
\<close>

theorem main_without_argument:
  assumes "length argv \<le> 1"
  shows "main read_routers argv w =
           (Inr (Some 1), w\<lparr>stderr := stderr w @ ''usage: netfuncs.py infile.json'' @ [CHR 0x0A]\<rparr>) \<and>
         script read_routers argv =
           (1, \<lparr>stdout = [], stderr = ''usage: netfuncs.py infile.json'' @ [CHR 0x0A]\<rparr>)"
  using assms by (simp add: main_def script_def usage_def py_print_def exit_status_def)

text \<open>The run with the program name alone.\<close>

theorem main_without_argument_witness:
  "length [''netfuncs.py''] \<le> 1 \<and>
   script (\<lambda>name. Inl OSError) [''netfuncs.py''] =
     (1, \<lparr>stdout = [], stderr = ''usage: netfuncs.py infile.json'' @ [CHR 0x0A]\<rparr>)"
proof -
  have h: "length [''netfuncs.py''] \<le> 1" by simp
  from main_without_argument [OF h, of "\<lambda>name. Inl OSError"]
  show ?thesis using h by blast
qed

text \<open>
  C6. The third section of the report has one bucket per router and one for the
  addresses without a router, and is said to be printed also when both kinds are there.
  With one router \<open>1.2.3.1/24\<close> and the pair \<open>1.2.3.5\<close>, \<open>9.9.9.9\<close> the keys of
  \<open>router_host_map\<close> are \<open>1.2.3.1\<close> and \<open>None\<close>; sorting them raises TypeError, after
  the heading and before any bucket is printed.
\<close>

theorem print_ip_routers_unmatched_raises:
  "print_ip_routers [(''1.2.3.1'', [(''netmask'', JStr ''/24'')])] [[''1.2.3.5'', ''9.9.9.9'']] [] =
     (Inl TypeError, ''Routers and corresponding IPs:'' @ [CHR 0x0A])"
  by code_simp

end
